theory Spec2Isabelle
  imports Main "HOL-Library.Sublist"
begin

section \<open>Python strings\<close>

text \<open>
  A Python \<open>str\<close> is a sequence of Unicode code points and \<open>len\<close> counts code points, so a
  string is a list of code points (natural numbers). \<open>ustr\<close> turns an ASCII literal into one.
\<close>

type_synonym codepoint = nat
type_synonym ustring = "codepoint list"

definition ustr :: "string \<Rightarrow> ustring" where
  "ustr s = map of_char s"

definition nl :: codepoint where
  "nl = 10"

definition sp :: codepoint where
  "sp = 32"

definition at_sign :: codepoint where
  "at_sign = 64"

definition lt_sign :: codepoint where
  "lt_sign = 60"

text \<open>The zero-width space U+200B.\<close>

definition zwsp :: codepoint where
  "zwsp = 8203"

text \<open>\<open>sep.join(xs)\<close>.\<close>

fun join :: "ustring \<Rightarrow> ustring list \<Rightarrow> ustring" where
  "join sep [] = []"
| "join sep [x] = x"
| "join sep (x # y # ys) = x @ sep @ join sep (y # ys)"

text \<open>
  \<open>s.split(sep)\<close> for a one-character separator: every occurrence of the separator ends a
  field, empty fields are kept, and the result always has at least one field.
\<close>

fun split_on_acc :: "codepoint \<Rightarrow> ustring \<Rightarrow> ustring \<Rightarrow> ustring list" where
  "split_on_acc sep cur [] = [cur]"
| "split_on_acc sep cur (c # cs) =
     (if c = sep then cur # split_on_acc sep [] cs else split_on_acc sep (cur @ [c]) cs)"

definition split_on :: "codepoint \<Rightarrow> ustring \<Rightarrow> ustring list" where
  "split_on sep s = split_on_acc sep [] s"

section \<open>The chunking engine\<close>

text \<open>
  \<open>chunk_text_blocks\<close> runs one loop over the lines with three local variables. The record
  holds them, \<open>chunk_step\<close> is the loop body and the loop is a \<open>fold\<close> from the initial
  state. \<open>max_chars\<close> is a Python integer, hence an \<open>int\<close>. A list is truthy when it is not
  empty.
\<close>

record chunk_state =
  chunks :: "ustring list"
  current :: "ustring list"
  current_len :: int

definition chunk_init :: chunk_state where
  "chunk_init = \<lparr>chunks = [], current = [], current_len = 0\<rparr>"

definition chunk_step :: "int \<Rightarrow> ustring \<Rightarrow> chunk_state \<Rightarrow> chunk_state" where
  "chunk_step max_chars line s =
     (if current_len s + int (length line) + 1 > max_chars \<and> current s \<noteq> []
      then \<lparr>chunks = chunks s @ [join [nl] (current s)],
            current = [line],
            current_len = int (length line) + 1\<rparr>
      else \<lparr>chunks = chunks s,
            current = current s @ [line],
            current_len = current_len s + (int (length line) + 1)\<rparr>)"

definition chunk_text_blocks :: "ustring list \<Rightarrow> int \<Rightarrow> ustring list" where
  "chunk_text_blocks lines max_chars =
     (let s = fold (chunk_step max_chars) lines chunk_init
      in if current s \<noteq> [] then chunks s @ [join [nl] (current s)] else chunks s)"

section \<open>Whitespace, \<open>strip\<close>, \<open>split\<close> and \<open>replace\<close>\<close>

text \<open>
  \<open>str.strip()\<close> and \<open>str.split()\<close> without arguments work on the characters for which
  \<open>str.isspace\<close> holds. These are the code points CPython lists as whitespace; the
  zero-width space U+200B is not one of them.
\<close>

definition py_isspace :: "codepoint \<Rightarrow> bool" where
  "py_isspace c \<longleftrightarrow>
     (9 \<le> c \<and> c \<le> 13) \<or> (28 \<le> c \<and> c \<le> 32) \<or> c = 133 \<or> c = 160 \<or> c = 5760 \<or>
     (8192 \<le> c \<and> c \<le> 8202) \<or> c = 8232 \<or> c = 8233 \<or> c = 8239 \<or> c = 8287 \<or> c = 12288"

definition strip :: "ustring \<Rightarrow> ustring" where
  "strip s = rev (dropWhile py_isspace (rev (dropWhile py_isspace s)))"

text \<open>
  \<open>s.split()\<close>: runs of whitespace separate the words and no empty word is produced. The
  accumulator holds the word being read.
\<close>

fun split_ws_acc :: "ustring \<Rightarrow> ustring \<Rightarrow> ustring list" where
  "split_ws_acc cur [] = (if cur = [] then [] else [cur])"
| "split_ws_acc cur (c # cs) =
     (if py_isspace c
      then (if cur = [] then split_ws_acc [] cs else cur # split_ws_acc [] cs)
      else split_ws_acc (cur @ [c]) cs)"

definition split_ws :: "ustring \<Rightarrow> ustring list" where
  "split_ws s = split_ws_acc [] s"

text \<open>
  \<open>s.replace(old, new)\<close>: the occurrences of \<open>old\<close> are found from left to right without
  overlap. With an empty \<open>old\<close> Python puts \<open>new\<close> before every character and at the end.
\<close>

function replace :: "ustring \<Rightarrow> ustring \<Rightarrow> ustring \<Rightarrow> ustring" where
  "replace old new [] = (if old = [] then new else [])"
| "replace old new (c # cs) =
     (if old = [] then new @ c # replace old new cs
      else if prefix old (c # cs) then new @ replace old new (drop (length old) (c # cs))
      else c # replace old new cs)"
  by pat_completeness auto
termination
  by (relation "measure (\<lambda>(old, new, s). length s)") auto

text \<open>\<open>str(n)\<close> for a natural number: its decimal digits.\<close>

function str_nat :: "nat \<Rightarrow> ustring" where
  "str_nat n = (if n < 10 then [48 + n] else str_nat (n div 10) @ [48 + n mod 10])"
  by pat_completeness auto
termination
  by (relation "measure id") auto

declare str_nat.simps [simp del]

section \<open>The helpers of the bot\<close>

text \<open>
  \<open>safe_name\<close>: \<open>not name\<close> holds for \<open>None\<close> and for the empty string. Then the two
  replacements run one after the other, the second on the result of the first.
\<close>

definition safe_name :: "ustring option \<Rightarrow> ustring" where
  "safe_name name =
     (case name of
        None \<Rightarrow> ustr ''Unknown''
      | Some n \<Rightarrow>
          if n = [] then ustr ''Unknown''
          else
            let n1 = replace [at_sign] [at_sign, zwsp] n;
                n2 = replace [lt_sign, at_sign] [lt_sign, at_sign, zwsp] n1
            in n2)"

text \<open>\<open>clean_message_content\<close>: \<open>content or ""\<close> turns \<open>None\<close> into the empty string.\<close>

definition clean_message_content :: "ustring option \<Rightarrow> ustring" where
  "clean_message_content content =
     (let c1 = strip (case content of None \<Rightarrow> [] | Some c \<Rightarrow> c);
          c2 = join [sp] (split_ws c1)
      in c2)"

text \<open>
  The prompt templates are triple-quoted f-strings that start and end with a newline and are
  stripped after the substitution. The glossary text (\<open>json.dumps(SLANG, ...)\<close>, or \<open>{}\<close>
  when the glossary is empty) comes from a file read at start-up and is a parameter here.
\<close>

definition build_summary_prompt :: "ustring \<Rightarrow> ustring \<Rightarrow> ustring" where
  "build_summary_prompt glossary formatted_chat =
     strip ([nl] @ join [nl]
       [ustr ''You are summarizing the last 24 hours of a Discord channel. The content may include Hinglish + slang + funny spellings.'',
        [],
        ustr ''Write a SHORT bullet-point summary.'',
        ustr ''Requirements:'',
        ustr ''- Use short bullets only (no long paragraphs).'',
        ustr ''- When referring to members, use the plain text names shown in the chat lines.'',
        ustr ''- Do NOT use @mentions or ping formats.'',
        ustr ''- Capture key topics, decisions, and outcomes.'',
        ustr ''- If there was a heated discussion/fight, mention which members were involved and what it was about, and what the outcome was.'',
        ustr ''- Use this slang glossary when helpful:'',
        glossary,
        [],
        ustr ''Chat (chronological):'',
        formatted_chat,
        [],
        ustr ''Return ONLY bullets, each starting with \"- \".''] @ [nl])"

definition map_prompt :: "nat \<Rightarrow> nat \<Rightarrow> ustring \<Rightarrow> ustring" where
  "map_prompt i n ch =
     strip ([nl] @ join [nl]
       [ustr ''Summarize this subset of Discord chat into SHORT bullet points.'',
        ustr ''Return ONLY bullets starting with \"- \".'',
        ustr ''Chunk '' @ str_nat i @ ustr ''/'' @ str_nat n @ ustr '':'',
        [],
        ch] @ [nl])"

definition reduce_prompt :: "ustring \<Rightarrow> ustring" where
  "reduce_prompt reduce_input =
     strip ([nl] @ join [nl]
       [ustr ''Combine these partial summaries into ONE short bullet-point summary.'',
        ustr ''Requirements:'',
        ustr ''- Short bullets only'',
        ustr ''- Mention member names as plain text (no pings)'',
        ustr ''- Capture fights/disagreements and outcomes if present'',
        ustr ''Return ONLY bullets starting with \"- \".'',
        [],
        ustr ''Partial summaries:'',
        reduce_input] @ [nl])"

section \<open>The outside world\<close>

text \<open>
  The handlers act on the platform and on the generation backend. The world records what
  they did: whether the interaction was deferred, the prompts given to \<open>gemini_generate\<close>
  in the order of the calls, and the texts passed to \<open>interaction.followup.send\<close> in the
  order of the sends.

  An exception carries the text that \<open>str(e)\<close> gives. \<open>discord.Forbidden\<close> is told apart
  because the history loop handles it in a clause of its own.

  The SDK call \<open>client_ai.models.generate_content\<close> either raises or returns a response
  whose \<open>text\<close> may be missing or \<open>None\<close>. Its answer may depend on every prompt it has been
  given before, so the backend is a function of the earlier prompts and the present one.
\<close>

record world =
  deferred :: bool
  calls :: "ustring list"
  sent :: "ustring list"

definition world_init :: world where
  "world_init = \<lparr>deferred = False, calls = [], sent = []\<rparr>"

datatype exn = Forbidden ustring | OtherException ustring

fun exn_str :: "exn \<Rightarrow> ustring" where
  "exn_str (Forbidden m) = m"
| "exn_str (OtherException m) = m"

type_synonym backend = "ustring list \<Rightarrow> ustring \<Rightarrow> exn + ustring option"

definition followup_send :: "ustring \<Rightarrow> world \<Rightarrow> world" where
  "followup_send text w = w\<lparr>sent := sent w @ [text]\<rparr>"

text \<open>
  \<open>gemini_generate\<close>: one call of the backend; the text of the response, or the empty
  string when there is none, stripped.
\<close>

definition gemini_generate :: "backend \<Rightarrow> ustring \<Rightarrow> world \<Rightarrow> (exn + ustring) \<times> world" where
  "gemini_generate backend text_prompt w =
     (let w' = w\<lparr>calls := calls w @ [text_prompt]\<rparr>
      in case backend (calls w) text_prompt of
           Inl e \<Rightarrow> (Inl e, w')
         | Inr resp_text \<Rightarrow>
             (Inr (strip (case resp_text of None \<Rightarrow> [] | Some t \<Rightarrow> t)), w'))"

section \<open>The summary command\<close>

text \<open>
  A message as the history loop reads it. \<open>getattr(msg.author, "display_name",
  msg.author.name)\<close> takes the display name when the author object has one.
  \<open>created_at.strftime("%Y-%m-%d %H:%M UTC")\<close> prints the year with four digits (for the
  years from 1000 on, which message timestamps are) and the other fields with two,
  zero-padded.
\<close>

record datetime =
  year :: nat
  month :: nat
  day :: nat
  hour :: nat
  minute :: nat

record message =
  author_bot :: bool
  author_display_name :: "ustring option"
  author_name :: ustring
  msg_content :: ustring
  created_at :: datetime

definition pad2 :: "nat \<Rightarrow> ustring" where
  "pad2 n = [48 + n div 10 mod 10, 48 + n mod 10]"

definition pad4 :: "nat \<Rightarrow> ustring" where
  "pad4 n = [48 + n div 1000 mod 10, 48 + n div 100 mod 10, 48 + n div 10 mod 10, 48 + n mod 10]"

definition strftime :: "datetime \<Rightarrow> ustring" where
  "strftime d =
     pad4 (year d) @ ustr ''-'' @ pad2 (month d) @ ustr ''-'' @ pad2 (day d) @ ustr '' '' @
     pad2 (hour d) @ ustr '':'' @ pad2 (minute d) @ ustr '' UTC''"

definition display_name_of :: "message \<Rightarrow> ustring" where
  "display_name_of msg =
     (case author_display_name msg of Some d \<Rightarrow> d | None \<Rightarrow> author_name msg)"

definition format_chat_line :: "message \<Rightarrow> ustring" where
  "format_chat_line msg =
     (let content = clean_message_content (Some (msg_content msg));
          author = safe_name (Some (display_name_of msg));
          ts = strftime (created_at msg)
      in ustr ''['' @ ts @ ustr ''] '' @ author @ ustr '': '' @ content)"

text \<open>The body of the history loop, and the loop.\<close>

definition collect_step :: "message \<Rightarrow> ustring list \<Rightarrow> ustring list" where
  "collect_step msg messages =
     (if author_bot msg then messages
      else if clean_message_content (Some (msg_content msg)) = [] then messages
      else messages @ [format_chat_line msg])"

definition collect_messages :: "message list \<Rightarrow> ustring list" where
  "collect_messages history = fold collect_step history []"

text \<open>
  The map phase: one call per chunk, numbered from 1; the first exception ends the loop
  and reaches the handler of the \<open>try\<close> block.
\<close>

fun map_phase ::
  "backend \<Rightarrow> nat \<Rightarrow> nat \<Rightarrow> ustring list \<Rightarrow> ustring list \<Rightarrow> world \<Rightarrow> (exn + ustring list) \<times> world"
where
  "map_phase backend i n [] partial_summaries w = (Inr partial_summaries, w)"
| "map_phase backend i n (ch # chs) partial_summaries w =
     (case gemini_generate backend (map_prompt i n ch) w of
        (Inl e, w') \<Rightarrow> (Inl e, w')
      | (Inr partial, w') \<Rightarrow> map_phase backend (Suc i) n chs (partial_summaries @ [partial]) w')"

definition could_not_generate :: ustring where
  "could_not_generate = ustr ''Could not generate summary.''"

definition send_final :: "(exn + ustring) \<times> world \<Rightarrow> world" where
  "send_final r =
     (case r of
        (Inl e, w) \<Rightarrow> followup_send (ustr ''Error generating summary: '' @ exn_str e) w
      | (Inr final, w) \<Rightarrow> followup_send (if final \<noteq> [] then final else could_not_generate) w)"

text \<open>
  The \<open>try\<close> block of \<open>summary\<close> that follows the chunking: the single call for one
  chunk, the map phase and the reduce call otherwise, and the handler that reports an
  exception.
\<close>

definition summary_generate :: "backend \<Rightarrow> ustring \<Rightarrow> ustring list \<Rightarrow> world \<Rightarrow> world" where
  "summary_generate backend glossary chunk_list w =
     (if length chunk_list = 1
      then send_final (gemini_generate backend (build_summary_prompt glossary (chunk_list ! 0)) w)
      else
        (case map_phase backend 1 (length chunk_list) chunk_list [] w of
           (Inl e, w') \<Rightarrow> send_final (Inl e, w')
         | (Inr partial_summaries, w') \<Rightarrow>
             send_final
               (gemini_generate backend (reduce_prompt (join [nl] partial_summaries)) w')))"

definition no_messages_found :: ustring where
  "no_messages_found = ustr ''No messages found in the past 24 hours.''"

text \<open>
  The command. \<open>is_text_channel\<close> is the outcome of the \<open>isinstance\<close> test; \<open>history\<close> is
  what iterating \<open>channel.history(...)\<close> gives: the messages of the window, oldest first,
  or the exception it raised.
\<close>

definition summary :: "backend \<Rightarrow> ustring \<Rightarrow> bool \<Rightarrow> exn + message list \<Rightarrow> world \<Rightarrow> world" where
  "summary backend glossary is_text_channel history w0 =
     (let w = w0\<lparr>deferred := True\<rparr>
      in if \<not> is_text_channel
         then followup_send (ustr ''This command can only be used in a text channel.'') w
         else
           (case history of
              Inl (Forbidden m) \<Rightarrow>
                followup_send
                  (ustr ''I don't have permission to read message history in this channel.'') w
            | Inl (OtherException m) \<Rightarrow>
                followup_send (ustr ''Error while fetching messages: '' @ m) w
            | Inr msgs \<Rightarrow>
                (let messages = collect_messages msgs
                 in if messages = [] then followup_send no_messages_found w
                    else summary_generate backend glossary
                           (chunk_text_blocks messages 12000) w)))"

section \<open>Predicates used in the statements\<close>

text \<open>Every \<open>@\<close> of the string is directly followed by a zero-width space.\<close>

fun at_guarded :: "ustring \<Rightarrow> bool" where
  "at_guarded [] = True"
| "at_guarded [c] = (c \<noteq> at_sign)"
| "at_guarded (c # d # cs) = ((c = at_sign \<longrightarrow> d = zwsp) \<and> at_guarded (d # cs))"

text \<open>The string has two spaces next to each other.\<close>

fun has_double_space :: "ustring \<Rightarrow> bool" where
  "has_double_space [] = False"
| "has_double_space [c] = False"
| "has_double_space (c # d # cs) = ((c = sp \<and> d = sp) \<or> has_double_space (d # cs))"

text \<open>A word as \<open>split\<close> makes them: not empty and free of whitespace.\<close>

definition is_word :: "ustring \<Rightarrow> bool" where
  "is_word w \<longleftrightarrow> w \<noteq> [] \<and> (\<forall>c \<in> set w. \<not> py_isspace c)"

text \<open>
  Bookkeeping for the chunking loop: the value \<open>current_len\<close> has for a list of lines, what
  makes a group of lines an admissible chunk, and the loop invariant. The invariant says
  which groups of lines the chunks made so far are the joins of.
\<close>

fun lines_len :: "ustring list \<Rightarrow> int" where
  "lines_len [] = 0"
| "lines_len (l # ls) = int (length l) + 1 + lines_len ls"

definition group_ok :: "int \<Rightarrow> ustring list \<Rightarrow> bool" where
  "group_ok M g \<longleftrightarrow>
     g \<noteq> [] \<and> (int (length (join [nl] g)) \<le> M \<or> (\<exists>l. g = [l] \<and> M < int (length l)))"

definition chunk_inv :: "int \<Rightarrow> ustring list \<Rightarrow> ustring list list \<Rightarrow> chunk_state \<Rightarrow> bool" where
  "chunk_inv M seen gs s \<longleftrightarrow>
     chunks s = map (join [nl]) gs \<and> concat gs @ current s = seen \<and>
     (\<forall>g \<in> set gs. group_ok M g) \<and> current_len s = lines_len (current s) \<and>
     (current s \<noteq> [] \<longrightarrow> group_ok M (current s))"

section \<open>Chunking: the empty input and the worked example\<close>

text \<open>
  Claim C6. Chunking the empty list of lines gives the empty list of chunks, whatever the
  budget is; in particular it does not give one empty chunk.
\<close>

theorem chunk_text_blocks_empty:
  "chunk_text_blocks [] max_chars = []"
  by (simp add: chunk_text_blocks_def chunk_init_def)

text \<open>
  Claim C7. Three lines of 5000 characters each, chunked with the budget 12000, give exactly
  two chunks: the first two lines joined by a newline, then the third line alone.
\<close>

theorem chunk_text_blocks_three_lines:
  assumes "length l1 = 5000" and "length l2 = 5000" and "length l3 = 5000"
  shows "chunk_text_blocks [l1, l2, l3] 12000 = [join [nl] [l1, l2], join [nl] [l3]]"
  using assms by (simp add: chunk_text_blocks_def chunk_init_def chunk_step_def)

theorem chunk_text_blocks_three_lines_witness:
  "chunk_text_blocks [replicate 5000 97, replicate 5000 98, replicate 5000 99] 12000
     = [join [nl] [replicate 5000 97, replicate 5000 98], join [nl] [replicate 5000 99]]"
  using chunk_text_blocks_three_lines
    [of "replicate 5000 97" "replicate 5000 98" "replicate 5000 99"]
  by simp

section \<open>Chunking: the size bound and the round trip\<close>

lemma lines_len_append: "lines_len (xs @ ys) = lines_len xs + lines_len ys"
  by (induction xs) auto

lemma length_join: "g \<noteq> [] \<Longrightarrow> int (length (join [nl] g)) = lines_len g - 1"
  by (induction "[nl]" g rule: join.induct) auto

lemma group_ok_single: "group_ok M [l]"
  by (simp add: group_ok_def) linarith

lemma group_ok_fits: "g \<noteq> [] \<Longrightarrow> lines_len g \<le> M \<Longrightarrow> group_ok M g"
  by (simp add: group_ok_def length_join)

lemma chunk_step_flush:
  assumes "chunk_inv M seen gs s" and "current_len s + int (length line) + 1 > M" and "current s \<noteq> []"
  shows "chunk_inv M (seen @ [line]) (gs @ [current s]) (chunk_step M line s)"
proof -
  have st: "chunk_step M line s = \<lparr>chunks = chunks s @ [join [nl] (current s)], current = [line],
            current_len = int (length line) + 1\<rparr>"
    using assms(2,3) by (simp add: chunk_step_def)
  show ?thesis
    unfolding st chunk_inv_def using assms(1,3)
    by (simp add: chunk_inv_def group_ok_single)
qed

lemma chunk_step_extend:
  assumes "chunk_inv M seen gs s" and "\<not> (current_len s + int (length line) + 1 > M \<and> current s \<noteq> [])"
  shows "chunk_inv M (seen @ [line]) gs (chunk_step M line s)"
proof -
  have st: "chunk_step M line s = \<lparr>chunks = chunks s, current = current s @ [line],
            current_len = current_len s + (int (length line) + 1)\<rparr>"
    using assms(2) by (simp add: chunk_step_def)
  have len: "current_len s = lines_len (current s)"
    using assms(1) by (simp add: chunk_inv_def)
  have ok: "group_ok M (current s @ [line])"
  proof (cases "current s = []")
    case True
    then show ?thesis by (simp add: group_ok_single)
  next
    case False
    with assms(2) len have "lines_len (current s @ [line]) \<le> M"
      by (simp add: lines_len_append)
    then show ?thesis by (intro group_ok_fits) simp_all
  qed
  show ?thesis
    unfolding st chunk_inv_def using assms(1) ok len
    by (simp add: chunk_inv_def lines_len_append)
qed

lemma chunk_fold_inv:
  "chunk_inv M seen gs s \<Longrightarrow> \<exists>gs'. chunk_inv M (seen @ ls) gs' (fold (chunk_step M) ls s)"
proof (induction ls arbitrary: seen gs s)
  case Nil
  then show ?case by auto
next
  case (Cons l ls)
  have "\<exists>gs1. chunk_inv M (seen @ [l]) gs1 (chunk_step M l s)"
    using chunk_step_flush [OF Cons.prems, of l] chunk_step_extend [OF Cons.prems, of l]
    by blast
  then obtain gs1 where "chunk_inv M (seen @ [l]) gs1 (chunk_step M l s)" ..
  from Cons.IH [OF this] show ?case by simp
qed

lemma chunk_init_inv: "chunk_inv M [] [] chunk_init"
  by (simp add: chunk_inv_def chunk_init_def)

lemma chunk_groups:
  "\<exists>gs. chunk_text_blocks ls M = map (join [nl]) gs \<and> concat gs = ls \<and> (\<forall>g \<in> set gs. group_ok M g)"
proof -
  from chunk_fold_inv [OF chunk_init_inv, of M ls] obtain gs
    where inv: "chunk_inv M ls gs (fold (chunk_step M) ls chunk_init)" by auto
  let ?s = "fold (chunk_step M) ls chunk_init"
  show ?thesis
  proof (cases "current ?s = []")
    case True
    with inv show ?thesis
      by (intro exI [of _ gs]) (simp add: chunk_text_blocks_def chunk_inv_def)
  next
    case False
    with inv show ?thesis
      by (intro exI [of _ "gs @ [current ?s]"]) (simp add: chunk_text_blocks_def chunk_inv_def)
  qed
qed


lemma split_on_acc_word:
  "sep \<notin> set w \<Longrightarrow> split_on_acc sep cur (w @ s) = split_on_acc sep (cur @ w) s"
  by (induction w arbitrary: cur) auto

lemma split_on_acc_join:
  "g \<noteq> [] \<Longrightarrow> \<forall>l \<in> set g. sep \<notin> set l \<Longrightarrow>
   split_on_acc sep cur (join [sep] g) = (cur @ hd g) # tl g"
proof (induction "[sep]" g arbitrary: cur rule: join.induct)
  case 1
  then show ?case by simp
next
  case (2 x)
  then show ?case using split_on_acc_word [of sep x cur "[]"] by simp
next
  case (3 x y ys)
  have "split_on_acc sep cur (x @ [sep] @ join [sep] (y # ys))
          = split_on_acc sep (cur @ x) ([sep] @ join [sep] (y # ys))"
    using "3.prems" by (intro split_on_acc_word) simp
  also have "\<dots> = (cur @ x) # split_on_acc sep [] (join [sep] (y # ys))"
    by simp
  also have "split_on_acc sep [] (join [sep] (y # ys)) = ([] @ hd (y # ys)) # tl (y # ys)"
    using "3.prems" by (intro "3.hyps") simp_all
  finally show ?case by simp
qed

lemma split_on_join:
  "g \<noteq> [] \<Longrightarrow> \<forall>l \<in> set g. nl \<notin> set l \<Longrightarrow> split_on nl (join [nl] g) = g"
  by (simp add: split_on_def split_on_acc_join)

lemma concat_split_join:
  "\<forall>g \<in> set gs. g \<noteq> [] \<and> (\<forall>l \<in> set g. nl \<notin> set l) \<Longrightarrow>
   concat (map (split_on nl) (map (join [nl]) gs)) = concat gs"
  by (induction gs) (simp_all add: split_on_join)

text \<open>
  Claim C1. For every list of lines and every positive budget \<open>M\<close>, the chunks are the
  newline joins of consecutive non-empty groups of the lines, and each chunk either has
  length at most \<open>M\<close> or is made of exactly one line whose own length exceeds \<open>M\<close>: an
  oversized line is emitted alone and whole.
\<close>

theorem chunk_text_blocks_bounded:
  assumes "0 < M"
  shows "\<exists>gs. chunk_text_blocks ls M = map (join [nl]) gs \<and> concat gs = ls \<and>
           (\<forall>g \<in> set gs. g \<noteq> [] \<and>
              (int (length (join [nl] g)) \<le> M \<or> (\<exists>l. g = [l] \<and> M < int (length l))))"
  using chunk_groups [of ls M] by (simp add: group_ok_def)

theorem chunk_text_blocks_bounded_witness:
  "(0::int) < 4 \<and>
   chunk_text_blocks [ustr ''a'', ustr ''b'', ustr ''long line'', ustr ''c''] 4
     = [ustr ''a'' @ [nl] @ ustr ''b'', ustr ''long line'', ustr ''c''] \<and>
   (\<exists>gs. chunk_text_blocks [ustr ''a'', ustr ''b'', ustr ''long line'', ustr ''c''] 4
            = map (join [nl]) gs \<and>
         concat gs = [ustr ''a'', ustr ''b'', ustr ''long line'', ustr ''c''] \<and>
         (\<forall>g \<in> set gs. g \<noteq> [] \<and>
            (int (length (join [nl] g)) \<le> 4 \<or> (\<exists>l. g = [l] \<and> 4 < int (length l)))))"
proof -
  have pos: "(0::int) < 4" by simp
  have run: "chunk_text_blocks [ustr ''a'', ustr ''b'', ustr ''long line'', ustr ''c''] 4
     = [ustr ''a'' @ [nl] @ ustr ''b'', ustr ''long line'', ustr ''c'']"
    by (simp add: chunk_text_blocks_def chunk_init_def chunk_step_def ustr_def)
  show ?thesis
    using pos run
      chunk_text_blocks_bounded [OF pos, of "[ustr ''a'', ustr ''b'', ustr ''long line'', ustr ''c'']"]
    by blast
qed

text \<open>
  Claim C2, as stated, fails for a line that contains a newline itself: the chunk made of
  the one line \<open>a\nb\<close> splits into the two lines \<open>a\<close> and \<open>b\<close>.
\<close>

theorem chunk_roundtrip_newline_counterexample:
  "concat (map (split_on nl) (chunk_text_blocks [ustr ''a'' @ [nl] @ ustr ''b''] 12000))
     = [ustr ''a'', ustr ''b''] \<and>
   concat (map (split_on nl) (chunk_text_blocks [ustr ''a'' @ [nl] @ ustr ''b''] 12000))
     \<noteq> [ustr ''a'' @ [nl] @ ustr ''b'']"
  by (simp add: chunk_text_blocks_def chunk_init_def chunk_step_def ustr_def split_on_def nl_def)

text \<open>
  Claim C2, amended. For every list \<open>L\<close> of strings none of which contains a newline and
  every positive budget, splitting each chunk at the newlines and concatenating the
  resulting lists in chunk order gives \<open>L\<close> back: no line is dropped, duplicated,
  reordered or altered.
\<close>

theorem chunk_roundtrip:
  assumes "0 < M" and "\<forall>l \<in> set ls. nl \<notin> set l"
  shows "concat (map (split_on nl) (chunk_text_blocks ls M)) = ls"
proof -
  from chunk_groups [of ls M] obtain gs
    where ch: "chunk_text_blocks ls M = map (join [nl]) gs" and cc: "concat gs = ls"
      and ok: "\<forall>g \<in> set gs. group_ok M g" by blast
  have "\<forall>g \<in> set gs. g \<noteq> [] \<and> (\<forall>l \<in> set g. nl \<notin> set l)"
  proof
    fix g assume g: "g \<in> set gs"
    then have "set g \<subseteq> set ls" using cc by auto
    with assms(2) g ok show "g \<noteq> [] \<and> (\<forall>l \<in> set g. nl \<notin> set l)"
      by (auto simp: group_ok_def)
  qed
  then show ?thesis
    unfolding ch using cc by (simp only: concat_split_join)
qed

theorem chunk_roundtrip_witness:
  "(0::int) < 4 \<and>
   list_all (\<lambda>l. nl \<notin> set l) [ustr ''a'', ustr ''b'', ustr ''long line'', ustr ''c''] \<and>
   chunk_text_blocks [ustr ''a'', ustr ''b'', ustr ''long line'', ustr ''c''] 4
     = [ustr ''a'' @ [nl] @ ustr ''b'', ustr ''long line'', ustr ''c''] \<and>
   concat (map (split_on nl)
     (chunk_text_blocks [ustr ''a'', ustr ''b'', ustr ''long line'', ustr ''c''] 4))
     = [ustr ''a'', ustr ''b'', ustr ''long line'', ustr ''c'']"
proof -
  have pos: "(0::int) < 4" by simp
  have free: "\<forall>l \<in> set [ustr ''a'', ustr ''b'', ustr ''long line'', ustr ''c'']. nl \<notin> set l"
    by (simp add: ustr_def nl_def)
  have run: "chunk_text_blocks [ustr ''a'', ustr ''b'', ustr ''long line'', ustr ''c''] 4
     = [ustr ''a'' @ [nl] @ ustr ''b'', ustr ''long line'', ustr ''c'']"
    by (simp add: chunk_text_blocks_def chunk_init_def chunk_step_def ustr_def)
  show ?thesis
    using pos free run chunk_roundtrip [OF pos free] by (simp only: list_all_iff)
qed

section \<open>The identity sanitizer\<close>

lemma at_guarded_Cons_other: "c \<noteq> at_sign \<Longrightarrow> at_guarded (c # s) = at_guarded s"
  by (cases s) auto

lemma at_guarded_Cons:
  "at_guarded (c # s) \<longleftrightarrow> (c = at_sign \<longrightarrow> s \<noteq> [] \<and> hd s = zwsp) \<and> at_guarded s"
  by (cases s) (auto simp: at_sign_def zwsp_def)

lemma replace_at_guarded: "at_guarded (replace [at_sign] [at_sign, zwsp] s)"
proof (induction s)
  case Nil
  then show ?case by simp
next
  case (Cons c s)
  show ?case
  proof (cases "c = at_sign")
    case True
    then show ?thesis using Cons by (simp add: at_guarded_Cons_other zwsp_def at_sign_def)
  next
    case False
    then show ?thesis using Cons by (simp add: at_guarded_Cons_other)
  qed
qed

lemma replace_lt_at_hd:
  "s \<noteq> [] \<Longrightarrow> replace [lt_sign, at_sign] [lt_sign, at_sign, zwsp] s \<noteq> [] \<and>
     hd (replace [lt_sign, at_sign] [lt_sign, at_sign, zwsp] s) = hd s"
  by (cases s) auto

lemma replace_lt_at_guarded:
  "at_guarded s \<Longrightarrow> at_guarded (replace [lt_sign, at_sign] [lt_sign, at_sign, zwsp] s)"
proof (induction "[lt_sign, at_sign]" "[lt_sign, at_sign, zwsp]" s rule: replace.induct)
  case 1
  then show ?case by simp
next
  case (2 c cs)
  show ?case
  proof (cases "prefix [lt_sign, at_sign] (c # cs)")
    case True
    then obtain r where cs: "c = lt_sign" "cs = at_sign # r" by (cases cs) auto
    from "2.prems" cs have "at_guarded r"
      by (simp add: at_guarded_Cons)
    with "2.hyps"(2) True cs have "at_guarded (replace [lt_sign, at_sign] [lt_sign, at_sign, zwsp] r)"
      by simp
    with cs show ?thesis
      by (simp add: at_guarded_Cons_other lt_sign_def at_sign_def zwsp_def)
  next
    case False
    from "2.prems" have g: "at_guarded cs" and h: "c = at_sign \<longrightarrow> cs \<noteq> [] \<and> hd cs = zwsp"
      by (simp_all add: at_guarded_Cons)
    from "2.hyps"(3) False g have "at_guarded (replace [lt_sign, at_sign] [lt_sign, at_sign, zwsp] cs)"
      by simp
    moreover have "replace [lt_sign, at_sign] [lt_sign, at_sign, zwsp] (c # cs)
        = c # replace [lt_sign, at_sign] [lt_sign, at_sign, zwsp] cs"
      using False by auto
    ultimately show ?thesis
      using h replace_lt_at_hd [of cs] by (metis at_guarded_Cons)
  qed
qed

text \<open>
  Claim C5. For every non-empty name, each \<open>@\<close> of the sanitized name is directly followed
  by the zero-width space U+200B.
\<close>

theorem safe_name_at_guarded:
  assumes "name \<noteq> []"
  shows "at_guarded (safe_name (Some name))"
  using assms by (simp add: safe_name_def replace_at_guarded replace_lt_at_guarded)

theorem safe_name_at_guarded_witness:
  "ustr ''a@b<@1>@'' \<noteq> [] \<and>
   safe_name (Some (ustr ''a@b<@1>@''))
     = ustr ''a@'' @ [zwsp] @ ustr ''b<@'' @ [zwsp, zwsp] @ ustr ''1>@'' @ [zwsp] \<and>
   at_guarded (safe_name (Some (ustr ''a@b<@1>@'')))"
proof -
  have ne: "ustr ''a@b<@1>@'' \<noteq> []" by (simp add: ustr_def)
  have run: "safe_name (Some (ustr ''a@b<@1>@''))
     = ustr ''a@'' @ [zwsp] @ ustr ''b<@'' @ [zwsp, zwsp] @ ustr ''1>@'' @ [zwsp]"
    by (simp add: safe_name_def ustr_def at_sign_def lt_sign_def zwsp_def)
  show ?thesis using ne run safe_name_at_guarded [OF ne] by blast
qed

text \<open>
  Claim C4, as stated, fails: the sanitized form of \<open><@123>\<close> is not \<open><@\<close>, one zero-width
  space, \<open>123>\<close>.
\<close>

theorem safe_name_mention_counterexample:
  "safe_name (Some (ustr ''<@123>'')) \<noteq> ustr ''<@'' @ [zwsp] @ ustr ''123>''"
  by (simp add: safe_name_def ustr_def at_sign_def lt_sign_def zwsp_def)

text \<open>
  Claim C4, amended. Sanitizing \<open><@123>\<close> gives \<open><@\<close>, two zero-width spaces, \<open>123>\<close>: the
  first replacement puts one after the \<open>@\<close>, and the second replacement still finds \<open><@\<close>
  and puts another one after it.
\<close>

theorem safe_name_mention:
  "safe_name (Some (ustr ''<@123>'')) = ustr ''<@'' @ [zwsp, zwsp] @ ustr ''123>''"
  by (simp add: safe_name_def ustr_def at_sign_def lt_sign_def zwsp_def)

section \<open>The text normalizer and the chat lines\<close>

lemma py_isspace_nl: "py_isspace nl" by (simp add: py_isspace_def nl_def)
lemma py_isspace_sp: "py_isspace sp" by (simp add: py_isspace_def sp_def)

lemma split_ws_acc_words:
  "\<forall>c \<in> set cur. \<not> py_isspace c \<Longrightarrow> \<forall>w \<in> set (split_ws_acc cur s). is_word w"
proof (induction s arbitrary: cur)
  case Nil
  then show ?case by (simp add: is_word_def)
next
  case (Cons a s)
  have nil: "\<forall>w \<in> set (split_ws_acc [] s). is_word w"
    by (rule Cons.IH) simp
  show ?case
  proof (cases "py_isspace a")
    case True
    with nil Cons.prems show ?thesis by (simp add: is_word_def)
  next
    case False
    with Cons.prems have "\<forall>w \<in> set (split_ws_acc (cur @ [a]) s). is_word w"
      by (intro Cons.IH) simp
    with False show ?thesis by simp
  qed
qed

lemma split_ws_words: "\<forall>w \<in> set (split_ws s). is_word w"
  using split_ws_acc_words [of "[]" s] by (simp add: split_ws_def)

lemma split_ws_acc_word:
  "\<forall>c \<in> set w. \<not> py_isspace c \<Longrightarrow> split_ws_acc cur (w @ s) = split_ws_acc (cur @ w) s"
  by (induction w arbitrary: cur) auto

lemma split_ws_acc_join:
  "ws \<noteq> [] \<Longrightarrow> \<forall>w \<in> set ws. is_word w \<Longrightarrow>
   split_ws_acc cur (join [sp] ws) = (cur @ hd ws) # tl ws"
proof (induction "[sp]" ws arbitrary: cur rule: join.induct)
  case 1
  then show ?case by simp
next
  case (2 x)
  then show ?case using split_ws_acc_word [of x cur "[]"] by (simp add: is_word_def)
next
  case (3 x y ys)
  have "split_ws_acc cur (x @ [sp] @ join [sp] (y # ys))
          = split_ws_acc (cur @ x) ([sp] @ join [sp] (y # ys))"
    using "3.prems" by (intro split_ws_acc_word) (simp add: is_word_def)
  also have "\<dots> = (cur @ x) # split_ws_acc [] (join [sp] (y # ys))"
    using "3.prems" by (simp add: py_isspace_sp is_word_def)
  also have "split_ws_acc [] (join [sp] (y # ys)) = ([] @ hd (y # ys)) # tl (y # ys)"
    using "3.prems" by (intro "3.hyps") simp_all
  finally show ?case by simp
qed

lemma split_ws_join: "\<forall>w \<in> set ws. is_word w \<Longrightarrow> split_ws (join [sp] ws) = ws"
  by (cases "ws = []") (simp_all add: split_ws_def split_ws_acc_join)

lemma join_words_no_nl: "\<forall>w \<in> set ws. is_word w \<Longrightarrow> nl \<notin> set (join [sp] ws)"
proof (induction "[sp]" ws rule: join.induct)
  case 1
  then show ?case by simp
next
  case (2 x)
  then show ?case using py_isspace_nl by (auto simp: is_word_def)
next
  case (3 x y ys)
  have "nl \<noteq> sp" by (simp add: nl_def sp_def)
  moreover have "nl \<notin> set x" using "3.prems" py_isspace_nl by (auto simp: is_word_def)
  moreover have "nl \<notin> set (join [sp] (y # ys))" using 3 by simp
  ultimately show ?case by simp
qed

lemma join_words_hd:
  "ws \<noteq> [] \<Longrightarrow> \<forall>w \<in> set ws. is_word w \<Longrightarrow>
   join [sp] ws \<noteq> [] \<and> hd (join [sp] ws) = hd (hd ws)"
  by (induction "[sp]" ws rule: join.induct) (auto simp: is_word_def)

lemma join_words_last:
  "ws \<noteq> [] \<Longrightarrow> \<forall>w \<in> set ws. is_word w \<Longrightarrow> last (join [sp] ws) = last (last ws)"
proof (induction "[sp]" ws rule: join.induct)
  case (3 x y ys)
  then have "join [sp] (y # ys) \<noteq> []" using join_words_hd [of "y # ys"] by simp
  with 3 show ?case by simp
qed simp_all

lemma join_nonempty_iff: "\<forall>w \<in> set ws. is_word w \<Longrightarrow> join [sp] ws = [] \<longleftrightarrow> ws = []"
  using join_words_hd [of ws] by auto

lemma join_words_ends:
  assumes "\<forall>w \<in> set ws. is_word w" and "join [sp] ws \<noteq> []"
  shows "\<not> py_isspace (hd (join [sp] ws)) \<and> \<not> py_isspace (last (join [sp] ws))"
proof -
  from assms have ne: "ws \<noteq> []" by auto
  then have "hd ws \<in> set ws" "last ws \<in> set ws" by simp_all
  with assms(1) have "is_word (hd ws)" "is_word (last ws)" by blast+
  then have "\<not> py_isspace (hd (hd ws))" "\<not> py_isspace (last (last ws))"
    by (simp_all add: is_word_def)
  then show ?thesis
    using join_words_hd [OF ne assms(1)] join_words_last [OF ne assms(1)] by simp
qed

lemma has_double_space_Cons_other: "c \<noteq> sp \<Longrightarrow> has_double_space (c # s) = has_double_space s"
  by (cases s) auto

lemma has_double_space_word:
  "\<forall>c \<in> set w. \<not> py_isspace c \<Longrightarrow> has_double_space (w @ s) = has_double_space s"
proof (induction w)
  case Nil
  then show ?case by simp
next
  case (Cons c w)
  then have "c \<noteq> sp" using py_isspace_sp by auto
  with Cons show ?case by (simp add: has_double_space_Cons_other)
qed

lemma join_words_no_double:
  "\<forall>w \<in> set ws. is_word w \<Longrightarrow> \<not> has_double_space (join [sp] ws)"
proof (induction "[sp]" ws rule: join.induct)
  case 1
  then show ?case by simp
next
  case (2 x)
  then show ?case using has_double_space_word [of x "[]"] by (simp add: is_word_def)
next
  case (3 x y ys)
  let ?r = "join [sp] (y # ys)"
  from "3.prems" have r: "?r \<noteq> []" "hd ?r = hd y" "is_word y"
    using join_words_hd [of "y # ys"] by simp_all
  then have "hd ?r \<noteq> sp" using py_isspace_sp by (cases y) (auto simp: is_word_def)
  with r(1) have "has_double_space (sp # ?r) = has_double_space ?r"
    by (cases ?r) auto
  moreover have "\<not> has_double_space ?r" using 3 by simp
  moreover have "has_double_space (x @ sp # ?r) = has_double_space (sp # ?r)"
    using "3.prems" by (intro has_double_space_word) (simp add: is_word_def)
  ultimately show ?case by simp
qed

lemma strip_fixed:
  assumes "s \<noteq> [] \<longrightarrow> \<not> py_isspace (hd s) \<and> \<not> py_isspace (last s)"
  shows "strip s = s"
proof (cases "s = []")
  case True
  then show ?thesis by (simp add: strip_def)
next
  case False
  with assms have h: "\<not> py_isspace (hd s)" and l: "\<not> py_isspace (last s)" by simp_all
  from False h have 1: "dropWhile py_isspace s = s" by (cases s) auto
  from False l have 2: "dropWhile py_isspace (rev s) = rev s"
    by (cases "rev s") (auto simp: last_rev [symmetric] simp del: last_rev)
  show ?thesis by (simp add: strip_def 1 2)
qed

lemma clean_is_join:
  "\<exists>ws. (\<forall>w \<in> set ws. is_word w) \<and> clean_message_content c = join [sp] ws"
  using split_ws_words by (auto simp: clean_message_content_def Let_def)

lemma clean_idem: "clean_message_content (Some (clean_message_content c)) = clean_message_content c"
proof -
  from clean_is_join obtain ws where ws: "\<forall>w \<in> set ws. is_word w"
    and c: "clean_message_content c = join [sp] ws" by blast
  have "strip (join [sp] ws) = join [sp] ws"
    using join_words_ends [OF ws] by (intro strip_fixed) simp
  then show ?thesis
    unfolding c by (simp add: clean_message_content_def split_ws_join [OF ws])
qed


lemma replace_keeps_other:
  "old \<noteq> [] \<Longrightarrow> x \<notin> set old \<Longrightarrow> x \<notin> set new \<Longrightarrow>
   x \<in> set (replace old new s) \<longleftrightarrow> x \<in> set s"
proof (induction old new s rule: replace.induct)
  case (1 old new)
  then show ?case by simp
next
  case (2 old new c cs)
  show ?case
  proof (cases "prefix old (c # cs)")
    case True
    then obtain r where r: "c # cs = old @ r" by (auto simp: prefix_def)
    then have d: "drop (length old) (c # cs) = r" by simp
    have "x \<in> set (replace old new r) \<longleftrightarrow> x \<in> set r"
      using "2.IH"(2) [OF "2.prems"(1) True] "2.prems" d by simp
    moreover have "replace old new (c # cs) = new @ replace old new r"
      using True "2.prems"(1) d by simp
    moreover have "x \<in> set (c # cs) \<longleftrightarrow> x \<in> set r"
      using "2.prems"(2) by (simp only: r set_append) simp
    ultimately show ?thesis using "2.prems"(3) by simp
  next
    case False
    have "x \<in> set (replace old new cs) \<longleftrightarrow> x \<in> set cs"
      using "2.IH"(3) [OF "2.prems"(1) False] "2.prems" by simp
    moreover have "replace old new (c # cs) = c # replace old new cs"
      using False "2.prems"(1) by simp
    ultimately show ?thesis by simp
  qed
qed

lemma safe_name_nl: "nl \<in> set (safe_name (Some d)) \<longleftrightarrow> nl \<in> set d"
proof (cases "d = []")
  case True
  then show ?thesis by (simp add: safe_name_def ustr_def nl_def)
next
  case False
  have "nl \<in> set (replace [lt_sign, at_sign] [lt_sign, at_sign, zwsp]
                    (replace [at_sign] [at_sign, zwsp] d))
        \<longleftrightarrow> nl \<in> set (replace [at_sign] [at_sign, zwsp] d)"
    by (intro replace_keeps_other) (simp_all add: nl_def lt_sign_def at_sign_def zwsp_def)
  also have "\<dots> \<longleftrightarrow> nl \<in> set d"
    by (intro replace_keeps_other) (simp_all add: nl_def at_sign_def zwsp_def)
  finally show ?thesis using False by (simp add: safe_name_def)
qed

lemma digit_not_nl: "48 + n \<noteq> nl"
  by (simp add: nl_def)

lemma strftime_no_nl: "nl \<notin> set (strftime d)"
  by (simp add: strftime_def pad2_def pad4_def ustr_def digit_not_nl) (simp add: nl_def)

lemma clean_no_nl: "nl \<notin> set (clean_message_content c)"
  using clean_is_join [of c] join_words_no_nl by auto

lemma format_chat_line_nl:
  "nl \<in> set (format_chat_line msg) \<longleftrightarrow> nl \<in> set (display_name_of msg)"
proof -
  have lit: "nl \<notin> set (ustr ''['')" "nl \<notin> set (ustr ''] '')" "nl \<notin> set (ustr '': '')"
    by (simp_all add: ustr_def nl_def)
  show ?thesis
    using lit strftime_no_nl [of "created_at msg"] clean_no_nl [of "Some (msg_content msg)"]
      safe_name_nl [of "display_name_of msg"]
    by (simp add: format_chat_line_def Let_def)
qed

text \<open>
  Claim C10, amended. For every input, \<open>None\<close> included, the normalized text contains no
  newline and no two consecutive spaces, and it neither starts nor ends with whitespace;
  normalizing is idempotent. A formatted chat line contains a newline exactly when the
  display name of its author does: the timestamp and the normalized content never do, and
  the sanitizer neither adds nor removes one.
\<close>

theorem clean_message_content_normal:
  "nl \<notin> set (clean_message_content c) \<and>
   \<not> has_double_space (clean_message_content c) \<and>
   (clean_message_content c \<noteq> [] \<longrightarrow>
      \<not> py_isspace (hd (clean_message_content c)) \<and>
      \<not> py_isspace (last (clean_message_content c))) \<and>
   clean_message_content (Some (clean_message_content c)) = clean_message_content c \<and>
   (nl \<in> set (format_chat_line msg) \<longleftrightarrow> nl \<in> set (display_name_of msg))"
proof -
  from clean_is_join obtain ws where ws: "\<forall>w \<in> set ws. is_word w"
    and c: "clean_message_content c = join [sp] ws" by blast
  have "\<not> has_double_space (clean_message_content c)"
    unfolding c by (rule join_words_no_double [OF ws])
  moreover have "clean_message_content c \<noteq> [] \<longrightarrow>
      \<not> py_isspace (hd (clean_message_content c)) \<and>
      \<not> py_isspace (last (clean_message_content c))"
    unfolding c using join_words_ends [OF ws] by blast
  ultimately show ?thesis
    using clean_no_nl [of c] clean_idem [of c] format_chat_line_nl [of msg] by blast
qed

theorem clean_message_content_normal_witness:
  "clean_message_content (Some ([sp, sp] @ ustr ''hi'' @ [nl, 9] @ ustr ''there'' @ [sp]))
     = ustr ''hi there'' \<and>
   (nl \<notin> set (clean_message_content (Some ([sp, sp] @ ustr ''hi'' @ [nl, 9] @ ustr ''there'' @ [sp]))) \<and>
    \<not> has_double_space
        (clean_message_content (Some ([sp, sp] @ ustr ''hi'' @ [nl, 9] @ ustr ''there'' @ [sp]))) \<and>
    (clean_message_content (Some ([sp, sp] @ ustr ''hi'' @ [nl, 9] @ ustr ''there'' @ [sp])) \<noteq> [] \<and>
       \<not> py_isspace
          (hd (clean_message_content (Some ([sp, sp] @ ustr ''hi'' @ [nl, 9] @ ustr ''there'' @ [sp])))) \<and>
       \<not> py_isspace
          (last (clean_message_content (Some ([sp, sp] @ ustr ''hi'' @ [nl, 9] @ ustr ''there'' @ [sp]))))) \<and>
    clean_message_content
      (Some (clean_message_content (Some ([sp, sp] @ ustr ''hi'' @ [nl, 9] @ ustr ''there'' @ [sp]))))
      = clean_message_content (Some ([sp, sp] @ ustr ''hi'' @ [nl, 9] @ ustr ''there'' @ [sp])) \<and>
    (nl \<in> set (format_chat_line
        \<lparr>author_bot = False, author_display_name = Some (ustr ''Asha''),
         author_name = ustr ''asha01'', msg_content = ustr ''hi'',
         created_at = \<lparr>year = 2024, month = 5, day = 17, hour = 9, minute = 30\<rparr>\<rparr>)
     \<longleftrightarrow>
     nl \<in> set (display_name_of
        \<lparr>author_bot = False, author_display_name = Some (ustr ''Asha''),
         author_name = ustr ''asha01'', msg_content = ustr ''hi'',
         created_at = \<lparr>year = 2024, month = 5, day = 17, hour = 9, minute = 30\<rparr>\<rparr>)))"
proof -
  have run: "clean_message_content (Some ([sp, sp] @ ustr ''hi'' @ [nl, 9] @ ustr ''there'' @ [sp]))
     = ustr ''hi there''"
    by (simp add: clean_message_content_def strip_def split_ws_def py_isspace_def sp_def nl_def
        ustr_def)
  have ne: "clean_message_content (Some ([sp, sp] @ ustr ''hi'' @ [nl, 9] @ ustr ''there'' @ [sp]))
     \<noteq> []"
    unfolding run by (simp add: ustr_def)
  show ?thesis
    using run ne clean_message_content_normal
          [of "Some ([sp, sp] @ ustr ''hi'' @ [nl, 9] @ ustr ''there'' @ [sp])"
              "\<lparr>author_bot = False, author_display_name = Some (ustr ''Asha''),
                author_name = ustr ''asha01'', msg_content = ustr ''hi'',
                created_at = \<lparr>year = 2024, month = 5, day = 17, hour = 9, minute = 30\<rparr>\<rparr>"]
    by blast
qed

text \<open>
  Claim C10, as stated, fails in its last part: a message whose author's display name
  contains a newline gives a chat line with a newline, and that line is fed to the chunking
  engine.
\<close>

theorem chat_line_newline_counterexample:
  "collect_messages
     [\<lparr>author_bot = False, author_display_name = Some (ustr ''a'' @ [nl] @ ustr ''b''),
       author_name = ustr ''ab'', msg_content = ustr ''hi'',
       created_at = \<lparr>year = 2024, month = 5, day = 17, hour = 9, minute = 30\<rparr>\<rparr>]
     = [ustr ''[2024-05-17 09:30 UTC] a'' @ [nl] @ ustr ''b: hi''] \<and>
   nl \<in> set (ustr ''[2024-05-17 09:30 UTC] a'' @ [nl] @ ustr ''b: hi'')"
  by (simp add: collect_messages_def collect_step_def format_chat_line_def
    display_name_of_def strftime_def pad2_def pad4_def safe_name_def
    clean_message_content_def strip_def split_ws_def py_isspace_def sp_def nl_def ustr_def
    at_sign_def lt_sign_def zwsp_def)

section \<open>The summary command and the orchestrator\<close>

lemma collect_fold_skip:
  "\<forall>m \<in> set msgs. author_bot m \<or> clean_message_content (Some (msg_content m)) = [] \<Longrightarrow>
   fold collect_step msgs acc = acc"
  by (induction msgs arbitrary: acc) (auto simp: collect_step_def)

text \<open>
  Claim C8. In a text channel, when the history of the window is retrieved and every
  message in it is written by a bot or normalizes to the empty string, the command sends
  exactly one reply, the fixed text \<open>No messages found in the past 24 hours.\<close>, and never
  calls the generation client.
\<close>

theorem summary_no_messages:
  assumes "\<forall>m \<in> set msgs. author_bot m \<or> clean_message_content (Some (msg_content m)) = []"
  shows "calls (summary backend glossary True (Inr msgs) world_init) = [] \<and>
         sent (summary backend glossary True (Inr msgs) world_init)
           = [ustr ''No messages found in the past 24 hours.'']"
  using collect_fold_skip [OF assms, of "[]"]
  by (simp add: summary_def collect_messages_def followup_send_def world_init_def
      no_messages_found_def)

lemma gemini_generate_sent: "sent (snd (gemini_generate backend p w)) = sent w"
  by (simp add: gemini_generate_def Let_def split: sum.splits)

lemma gemini_generate_calls: "calls (snd (gemini_generate backend p w)) = calls w @ [p]"
  by (simp add: gemini_generate_def Let_def split: sum.splits)

lemma gemini_generate_ok:
  assumes "\<forall>h p. \<exists>t. backend h p = Inr t"
  shows "\<exists>r. fst (gemini_generate backend p w) = Inr r"
proof -
  from assms obtain t where "backend (calls w) p = Inr t" by blast
  then show ?thesis by (simp add: gemini_generate_def Let_def)
qed

lemma map_phase_sent: "sent (snd (map_phase backend i n chs ps w)) = sent w"
proof (induction chs arbitrary: i ps w)
  case Nil
  then show ?case by simp
next
  case (Cons ch chs)
  obtain r w1 where g: "gemini_generate backend (map_prompt i n ch) w = (r, w1)"
    by (cases "gemini_generate backend (map_prompt i n ch) w")
  then have "sent w1 = sent w" using gemini_generate_sent [of backend "map_prompt i n ch" w] by simp
  with g Cons.IH show ?case by (cases r) simp_all
qed

lemma map_phase_ok:
  assumes "\<forall>h p. \<exists>t. backend h p = Inr t"
  shows "\<exists>qs w'. map_phase backend i n chs ps w = (Inr (ps @ qs), w') \<and>
           length qs = length chs \<and>
           calls w' = calls w @ map (\<lambda>(k, ch). map_prompt k n ch) (enumerate i chs)"
proof (induction chs arbitrary: i ps w)
  case Nil
  then show ?case by simp
next
  case (Cons ch chs)
  obtain r w1 where g: "gemini_generate backend (map_prompt i n ch) w = (r, w1)"
    by (cases "gemini_generate backend (map_prompt i n ch) w")
  from gemini_generate_ok [OF assms, of "map_prompt i n ch" w] g
  obtain p where r: "r = Inr p" by auto
  from g have c1: "calls w1 = calls w @ [map_prompt i n ch]"
    using gemini_generate_calls [of backend "map_prompt i n ch" w] by simp
  from Cons.IH [of "Suc i" "ps @ [p]" w1] obtain qs w'
    where ih: "map_phase backend (Suc i) n chs (ps @ [p]) w1 = (Inr ((ps @ [p]) @ qs), w')"
      "length qs = length chs"
      "calls w' = calls w1 @ map (\<lambda>(k, ch). map_prompt k n ch) (enumerate (Suc i) chs)"
    by blast
  have "map_phase backend i n (ch # chs) ps w = (Inr (ps @ (p # qs)), w')"
    using g r ih(1) by simp
  moreover have "length (p # qs) = length (ch # chs)" using ih(2) by simp
  moreover have "calls w' = calls w @ map (\<lambda>(k, ch). map_prompt k n ch) (enumerate i (ch # chs))"
    using ih(3) c1 by simp
  ultimately show ?case by blast
qed

lemma send_final_calls: "calls (send_final (r, w)) = calls w"
  by (cases r) (simp_all add: send_final_def followup_send_def)

text \<open>
  Claim C3. Suppose no call of the backend raises. For \<open>N > 1\<close> chunks the generation
  client is called on the \<open>N\<close> map prompts, one per chunk, numbered from 1 and in chunk
  order, and then once on the reduce prompt built from \<open>N\<close> partial summaries, and on
  nothing else. For one chunk it is called exactly once, on the summary prompt of that
  chunk.
\<close>

theorem summary_generate_calls:
  assumes "\<forall>h p. \<exists>t. backend h p = Inr t"
  shows "(1 < length chunk_list \<longrightarrow>
            (\<exists>partials. length partials = length chunk_list \<and>
               calls (summary_generate backend glossary chunk_list world_init)
                 = map (\<lambda>(i, ch). map_prompt i (length chunk_list) ch) (enumerate 1 chunk_list)
                   @ [reduce_prompt (join [nl] partials)])) \<and>
         (length chunk_list = 1 \<longrightarrow>
            calls (summary_generate backend glossary chunk_list world_init)
              = [build_summary_prompt glossary (chunk_list ! 0)])"
proof (intro conjI impI)
  assume n: "1 < length chunk_list"
  from map_phase_ok [OF assms, of 1 "length chunk_list" chunk_list "[]" world_init]
  obtain qs w' where m: "map_phase backend 1 (length chunk_list) chunk_list [] world_init = (Inr qs, w')"
    and l: "length qs = length chunk_list"
    and c: "calls w' = calls world_init
          @ map (\<lambda>(k, ch). map_prompt k (length chunk_list) ch) (enumerate 1 chunk_list)"
    by auto
  obtain r w2 where g: "gemini_generate backend (reduce_prompt (join [nl] qs)) w' = (r, w2)"
    by (cases "gemini_generate backend (reduce_prompt (join [nl] qs)) w'")
  then have "calls w2 = calls w' @ [reduce_prompt (join [nl] qs)]"
    using gemini_generate_calls [of backend "reduce_prompt (join [nl] qs)" w'] by simp
  then have "calls (summary_generate backend glossary chunk_list world_init)
      = map (\<lambda>(i, ch). map_prompt i (length chunk_list) ch) (enumerate 1 chunk_list)
        @ [reduce_prompt (join [nl] qs)]"
    using n m g c by (simp add: summary_generate_def send_final_calls world_init_def)
  with l show "\<exists>partials. length partials = length chunk_list \<and>
       calls (summary_generate backend glossary chunk_list world_init)
         = map (\<lambda>(i, ch). map_prompt i (length chunk_list) ch) (enumerate 1 chunk_list)
           @ [reduce_prompt (join [nl] partials)]"
    by blast
next
  assume n: "length chunk_list = 1"
  obtain r w2 where g: "gemini_generate backend (build_summary_prompt glossary (chunk_list ! 0)) world_init = (r, w2)"
    by (cases "gemini_generate backend (build_summary_prompt glossary (chunk_list ! 0)) world_init")
  then have "calls w2 = calls world_init @ [build_summary_prompt glossary (chunk_list ! 0)]"
    using gemini_generate_calls [of backend "build_summary_prompt glossary (chunk_list ! 0)" world_init]
    by simp
  then show "calls (summary_generate backend glossary chunk_list world_init)
      = [build_summary_prompt glossary (chunk_list ! 0)]"
    using n g by (simp add: summary_generate_def send_final_calls world_init_def)
qed


theorem summary_no_messages_witness:
  "list_all (\<lambda>m. author_bot m \<or> clean_message_content (Some (msg_content m)) = [])
       [\<lparr>author_bot = True, author_display_name = Some (ustr ''Helper''),
         author_name = ustr ''helper'', msg_content = ustr ''hello'',
         created_at = \<lparr>year = 2024, month = 5, day = 17, hour = 9, minute = 30\<rparr>\<rparr>,
        \<lparr>author_bot = False, author_display_name = None,
         author_name = ustr ''asha01'', msg_content = [sp, nl, sp],
         created_at = \<lparr>year = 2024, month = 5, day = 17, hour = 9, minute = 31\<rparr>\<rparr>] \<and>
   calls (summary (\<lambda>h p. Inr (Some (ustr ''- ok''))) (ustr ''{}'') True
       (Inr [\<lparr>author_bot = True, author_display_name = Some (ustr ''Helper''),
         author_name = ustr ''helper'', msg_content = ustr ''hello'',
         created_at = \<lparr>year = 2024, month = 5, day = 17, hour = 9, minute = 30\<rparr>\<rparr>,
        \<lparr>author_bot = False, author_display_name = None,
         author_name = ustr ''asha01'', msg_content = [sp, nl, sp],
         created_at = \<lparr>year = 2024, month = 5, day = 17, hour = 9, minute = 31\<rparr>\<rparr>])
       world_init) = [] \<and>
   sent (summary (\<lambda>h p. Inr (Some (ustr ''- ok''))) (ustr ''{}'') True
       (Inr [\<lparr>author_bot = True, author_display_name = Some (ustr ''Helper''),
         author_name = ustr ''helper'', msg_content = ustr ''hello'',
         created_at = \<lparr>year = 2024, month = 5, day = 17, hour = 9, minute = 30\<rparr>\<rparr>,
        \<lparr>author_bot = False, author_display_name = None,
         author_name = ustr ''asha01'', msg_content = [sp, nl, sp],
         created_at = \<lparr>year = 2024, month = 5, day = 17, hour = 9, minute = 31\<rparr>\<rparr>])
       world_init) = [ustr ''No messages found in the past 24 hours.'']"
proof -
  have h: "\<forall>m \<in> set
       [\<lparr>author_bot = True, author_display_name = Some (ustr ''Helper''),
         author_name = ustr ''helper'', msg_content = ustr ''hello'',
         created_at = \<lparr>year = 2024, month = 5, day = 17, hour = 9, minute = 30\<rparr>\<rparr>,
        \<lparr>author_bot = False, author_display_name = None,
         author_name = ustr ''asha01'', msg_content = [sp, nl, sp],
         created_at = \<lparr>year = 2024, month = 5, day = 17, hour = 9, minute = 31\<rparr>\<rparr>].
      author_bot m \<or> clean_message_content (Some (msg_content m)) = []"
    by (simp add: clean_message_content_def strip_def split_ws_def py_isspace_def sp_def nl_def)
  show ?thesis
    using h summary_no_messages [OF h, of "\<lambda>h p. Inr (Some (ustr ''- ok''))" "ustr ''{}''"]
    by (simp only: list_all_iff)
qed

theorem summary_generate_calls_witness:
  "(\<forall>h p. \<exists>t. (\<lambda>h p. Inr (Some (ustr ''- ok'')) :: exn + ustring option) h p = Inr t) \<and>
   (\<exists>partials. length partials = 2 \<and>
      calls (summary_generate (\<lambda>h p. Inr (Some (ustr ''- ok''))) (ustr ''{}'')
               [ustr ''first'', ustr ''second''] world_init)
        = [map_prompt 1 2 (ustr ''first''), map_prompt 2 2 (ustr ''second''),
           reduce_prompt (join [nl] partials)]) \<and>
   calls (summary_generate (\<lambda>h p. Inr (Some (ustr ''- ok''))) (ustr ''{}'')
            [ustr ''first''] world_init)
     = [build_summary_prompt (ustr ''{}'') (ustr ''first'')]"
proof -
  have h: "\<forall>h p. \<exists>t. (\<lambda>h p. Inr (Some (ustr ''- ok'')) :: exn + ustring option) h p = Inr t"
    by simp
  show ?thesis
    using h
      summary_generate_calls [OF h, of "[ustr ''first'', ustr ''second'']" "ustr ''{}''"]
      summary_generate_calls [OF h, of "[ustr ''first'']" "ustr ''{}''"]
    by (simp add: numeral_2_eq_2)
qed

lemma send_final_empty:
  assumes "fst r = Inr []"
  shows "sent (send_final r) = sent (snd r) @ [ustr ''Could not generate summary.'']"
  using assms by (cases r) (simp add: send_final_def followup_send_def could_not_generate_def)

text \<open>
  Claim C9. When the last call of the generation client in a run (the only call for one
  chunk, the reduce call after a map phase that went through otherwise) returns the empty
  string, the reply that is sent is the fixed text \<open>Could not generate summary.\<close>, and it
  is the only one.
\<close>

theorem summary_generate_fallback:
  "(length chunk_list = 1 \<and>
    fst (gemini_generate backend (build_summary_prompt glossary (chunk_list ! 0)) w) = Inr []
    \<longrightarrow> sent (summary_generate backend glossary chunk_list w)
          = sent w @ [ustr ''Could not generate summary.'']) \<and>
   (length chunk_list \<noteq> 1 \<and>
    map_phase backend 1 (length chunk_list) chunk_list [] w = (Inr partial_summaries, w') \<and>
    fst (gemini_generate backend (reduce_prompt (join [nl] partial_summaries)) w') = Inr []
    \<longrightarrow> sent (summary_generate backend glossary chunk_list w)
          = sent w @ [ustr ''Could not generate summary.''])"
proof (intro conjI impI; elim conjE)
  assume n: "length chunk_list = 1"
    and e: "fst (gemini_generate backend (build_summary_prompt glossary (chunk_list ! 0)) w) = Inr []"
  show "sent (summary_generate backend glossary chunk_list w)
          = sent w @ [ustr ''Could not generate summary.'']"
    using n send_final_empty [OF e] by (simp add: summary_generate_def gemini_generate_sent)
next
  assume n: "length chunk_list \<noteq> 1"
    and m: "map_phase backend 1 (length chunk_list) chunk_list [] w = (Inr partial_summaries, w')"
    and e: "fst (gemini_generate backend (reduce_prompt (join [nl] partial_summaries)) w') = Inr []"
  have "sent w' = sent w"
    using map_phase_sent [of backend 1 "length chunk_list" chunk_list "[]" w] m by simp
  then show "sent (summary_generate backend glossary chunk_list w)
          = sent w @ [ustr ''Could not generate summary.'']"
    using n m send_final_empty [OF e] by (simp add: summary_generate_def gemini_generate_sent)
qed

theorem summary_generate_fallback_witness:
  "(length [ustr ''first''] = 1 \<and>
    fst (gemini_generate (\<lambda>h p. Inr None) (build_summary_prompt (ustr ''{}'') ([ustr ''first''] ! 0))
           world_init) = Inr []) \<and>
   sent (summary_generate (\<lambda>h p. Inr None) (ustr ''{}'') [ustr ''first''] world_init)
     = [ustr ''Could not generate summary.''] \<and>
   (length [ustr ''first'', ustr ''second''] \<noteq> 1 \<and>
    map_phase (\<lambda>h p. if length h < 2 then Inr (Some (ustr ''- ok'')) else Inr (Some [sp, nl]))
        1 (length [ustr ''first'', ustr ''second'']) [ustr ''first'', ustr ''second''] []
        world_init
      = (Inr [ustr ''- ok'', ustr ''- ok''],
         \<lparr>deferred = False,
          calls = [map_prompt 1 2 (ustr ''first''), map_prompt 2 2 (ustr ''second'')],
          sent = []\<rparr>) \<and>
    fst (gemini_generate
           (\<lambda>h p. if length h < 2 then Inr (Some (ustr ''- ok'')) else Inr (Some [sp, nl]))
           (reduce_prompt (join [nl] [ustr ''- ok'', ustr ''- ok'']))
           \<lparr>deferred = False,
            calls = [map_prompt 1 2 (ustr ''first''), map_prompt 2 2 (ustr ''second'')],
            sent = []\<rparr>) = Inr []) \<and>
   sent (summary_generate
           (\<lambda>h p. if length h < 2 then Inr (Some (ustr ''- ok'')) else Inr (Some [sp, nl]))
           (ustr ''{}'') [ustr ''first'', ustr ''second''] world_init)
     = [ustr ''Could not generate summary.'']"
proof -
  have a: "length [ustr ''first''] = 1 \<and>
    fst (gemini_generate (\<lambda>h p. Inr None) (build_summary_prompt (ustr ''{}'') ([ustr ''first''] ! 0))
           world_init) = Inr []"
    by (simp add: gemini_generate_def strip_def)
  have b: "length [ustr ''first'', ustr ''second''] \<noteq> 1 \<and>
    map_phase (\<lambda>h p. if length h < 2 then Inr (Some (ustr ''- ok'')) else Inr (Some [sp, nl]))
        1 (length [ustr ''first'', ustr ''second'']) [ustr ''first'', ustr ''second''] []
        world_init
      = (Inr [ustr ''- ok'', ustr ''- ok''],
         \<lparr>deferred = False,
          calls = [map_prompt 1 2 (ustr ''first''), map_prompt 2 2 (ustr ''second'')],
          sent = []\<rparr>) \<and>
    fst (gemini_generate
           (\<lambda>h p. if length h < 2 then Inr (Some (ustr ''- ok'')) else Inr (Some [sp, nl]))
           (reduce_prompt (join [nl] [ustr ''- ok'', ustr ''- ok'']))
           \<lparr>deferred = False,
            calls = [map_prompt 1 2 (ustr ''first''), map_prompt 2 2 (ustr ''second'')],
            sent = []\<rparr>) = Inr []"
    by (simp add: gemini_generate_def strip_def py_isspace_def sp_def nl_def ustr_def
        world_init_def numeral_2_eq_2)
  show ?thesis
    using a b
      summary_generate_fallback [of "[ustr ''first'']" "\<lambda>h p. Inr None" "ustr ''{}''" world_init]
      summary_generate_fallback
        [of "[ustr ''first'', ustr ''second'']"
            "\<lambda>h p. if length h < 2 then Inr (Some (ustr ''- ok'')) else Inr (Some [sp, nl])"
            "ustr ''{}''" world_init "[ustr ''- ok'', ustr ''- ok'']"
            "\<lparr>deferred = False,
              calls = [map_prompt 1 2 (ustr ''first''), map_prompt 2 2 (ustr ''second'')],
              sent = []\<rparr>"]
    by (simp add: world_init_def)
qed

end
